theory Spec2Isabelle
  imports Main "HOL-Library.Sublist"
begin

section \<open>Strings of the Go runtime\<close>

text \<open>
  A Go string is a sequence of bytes; \<open>string\<close> (a list of \<open>char\<close>, each one byte) is
  the same thing. \<open>strings.HasPrefix\<close> is \<^const>\<open>prefix\<close> on these lists.
\<close>

definition isUpperASCII :: "char \<Rightarrow> bool" where
  "isUpperASCII c = (65 \<le> (of_char c :: nat) \<and> (of_char c :: nat) \<le> 90)"

definition isASCII :: "char \<Rightarrow> bool" where
  "isASCII c = ((of_char c :: nat) < 128)"

definition lowerASCII :: "char \<Rightarrow> char" where
  "lowerASCII c = (if isUpperASCII c then char_of ((of_char c :: nat) + 32) else c)"

text \<open>
  \<open>strings.ToLower\<close>: when every byte is below \<open>utf8.RuneSelf\<close> the standard library
  lowers the bytes \<open>'A'..'Z'\<close> in place (and returns the string itself when there is none);
  otherwise it maps \<open>unicode.ToLower\<close> over the runes. The rune table is the library's, so
  the second case is the parameter \<open>uni\<close>.
\<close>

definition ToLower :: "(string \<Rightarrow> string) \<Rightarrow> string \<Rightarrow> string" where
  "ToLower uni s = (if list_all isASCII s then map lowerASCII s else uni s)"

section \<open>The HTTP middleware\<close>

text \<open>
  What a handler does to its \<open>http.ResponseWriter\<close> is the list of calls it makes on it,
  oldest first. \<open>http.Redirect (w, r, url, code)\<close> is one such call, recorded with the
  target and the status it was given.
\<close>

datatype wcall = WriteHeader nat | Redirect string nat | Body string

type_synonym writer = "wcall list"

definition StatusNotFound :: nat where "StatusNotFound = 404"
definition StatusUnauthorized :: nat where "StatusUnauthorized = 401"
definition StatusPermanentRedirect :: nat where "StatusPermanentRedirect = 308"

text \<open>
  A \<open>sessions.Session\<close> of the cookie store: its values (the user name and the flash
  error, both strings), whether it was just created, and the cookie options that
  \<open>putSessionKey\<close> sets.
\<close>

datatype same_site = SameSiteDefaultMode | SameSiteLaxMode | SameSiteStrictMode | SameSiteNoneMode

record session_options =
  HttpOnly :: bool
  SameSite :: same_site
  MaxAge :: int

record session =
  Values :: "string \<rightharpoonup> string"
  IsNew :: bool
  Options :: session_options

text \<open>
  The values the middleware stores in a request's context: a \<open>*config.User\<close> (never nil
  where \<open>SessionHandler\<close> stores it), the flash error, the session.
\<close>

datatype ctxval = UserVal string | ErrorVal string | SessionVal session | OtherVal

record request =
  RequestURI :: string
  URL_Path :: string
  Context :: "string \<rightharpoonup> ctxval"

type_synonym handler = "writer \<Rightarrow> request \<Rightarrow> writer"

definition contextUserKey :: string where "contextUserKey = ''user''"
definition contextErrorKey :: string where "contextErrorKey = ''error''"
definition contextSessionKey :: string where "contextSessionKey = ''session''"

text \<open>The type assertion \<open>.(*config.User)\<close> gives nil for an absent key or another type.\<close>

definition getUserForRequest :: "request \<Rightarrow> string option" where
  "getUserForRequest r =
     (case Context r contextUserKey of Some (UserVal u) \<Rightarrow> Some u | _ \<Rightarrow> None)"

definition getErrorForRequest :: "request \<Rightarrow> string" where
  "getErrorForRequest r =
     (case Context r contextErrorKey of Some (ErrorVal e) \<Rightarrow> e | _ \<Rightarrow> [])"

definition getSessionForRequest :: "request \<Rightarrow> session option" where
  "getSessionForRequest r =
     (case Context r contextSessionKey of Some (SessionVal s) \<Rightarrow> Some s | _ \<Rightarrow> None)"

subsection \<open>putSessionKey\<close>

text \<open>
  The session is reached through a pointer in the request's context, so the update of its
  values and options is an update of the request. \<open>Save\<close> is the session store's: it
  writes the cookie to the response and may fail (\<open>Some err\<close>). The function has no result;
  what it leaves behind is the response, the request and the process log, to which
  \<open>log.Printf\<close> appends.
\<close>

definition putSessionKey ::
  "(session \<Rightarrow> writer \<Rightarrow> writer \<times> string option) \<Rightarrow> writer \<Rightarrow> request \<Rightarrow> string \<Rightarrow> string
     \<Rightarrow> string list \<Rightarrow> writer \<times> request \<times> string list" where
  "putSessionKey Save w r key val log =
     (case getSessionForRequest r of
        None \<Rightarrow> (w, r, log)
      | Some s \<Rightarrow>
          let s1 = s\<lparr>Values := (Values s)(key \<mapsto> val)\<rparr>;
              s2 = (if IsNew s1
                    then s1\<lparr>Options := (Options s1)\<lparr>HttpOnly := True,
                           SameSite := SameSiteStrictMode, MaxAge := 60 * 60 * 24 * 31\<rparr>\<rparr>
                    else s1);
              r' = r\<lparr>Context := (Context r)(contextSessionKey \<mapsto> SessionVal s2)\<rparr>
          in (case Save s2 w of
                (w', Some err) \<Rightarrow> (w', r', log @ [''Unable to save session: '' @ err])
              | (w', None) \<Rightarrow> (w', r', log)))"

subsection \<open>CheckAuthentication\<close>

text \<open>
  The route table is a Go map. Ranging over a map visits every key once, in an order the
  runtime chooses, so \<open>findPrefix\<close> takes the order of the visit as a list of the entries.
\<close>

definition authRequirements :: "bool \<Rightarrow> bool \<Rightarrow> (string \<times> bool) list" where
  "authRequirements authForReads authForWrites =
     [(''/edit/'', authForWrites),
      (''/file/'', authForReads),
      (''/history/'', authForReads),
      (''/view/'', authForReads),
      (''/wiki/index'', authForReads),
      (''/wiki/files'', authForReads),
      (''/wiki/login'', False),
      (''/wiki/logout'', False),
      (''/wiki/upload'', authForWrites)]"

text \<open>An iteration order of the map: the same entries, each key once.\<close>

definition iteration_of :: "(string \<times> bool) list \<Rightarrow> (string \<times> bool) list \<Rightarrow> bool" where
  "iteration_of m ord = (set ord = set m \<and> distinct (map fst ord))"

text \<open>\<open>findPrefix\<close>: \<open>None\<close> is the error "unknown route".\<close>

fun findPrefix :: "(string \<times> bool) list \<Rightarrow> string \<Rightarrow> bool option" where
  "findPrefix [] target = None"
| "findPrefix ((i, b) # rest) target =
     (if prefix i target then Some b else findPrefix rest target)"

definition CheckAuthentication :: "(string \<times> bool) list \<Rightarrow> handler \<Rightarrow> handler" where
  "CheckAuthentication ord next writer request =
     (case findPrefix ord (URL_Path request) of
        None \<Rightarrow> writer @ [WriteHeader StatusNotFound]
      | Some needAuth \<Rightarrow>
          if needAuth \<and> getUserForRequest request = None
          then writer @ [WriteHeader StatusUnauthorized]
          else next writer request)"

subsection \<open>LowerCaseCanonical\<close>

definition LowerCaseCanonical :: "(string \<Rightarrow> string) \<Rightarrow> handler \<Rightarrow> handler" where
  "LowerCaseCanonical uni next writer request =
     (if ToLower uni (RequestURI request) \<noteq> RequestURI request
      then writer @ [Redirect (ToLower uni (RequestURI request)) StatusPermanentRedirect]
      else next writer request)"

section \<open>Paths of the Go runtime\<close>

text \<open>
  \<open>filepath.Join\<close> and \<open>filepath.Clean\<close> on a system whose separator is \<open>/\<close> and whose
  paths have no volume name. \<open>Clean\<close> is purely lexical: it drops empty and \<open>.\<close> elements,
  lets a \<open>..\<close> element remove the element before it (unless that one is a \<open>..\<close> too),
  drops a \<open>..\<close> that would climb above the root of a rooted path and keeps it at the start
  of a relative one. The buffer of the library is the list \<open>out\<close> of the elements written
  so far.
\<close>

fun splitSep :: "string \<Rightarrow> string list" where
  "splitSep [] = [[]]"
| "splitSep (c # cs) =
     (if c = CHR ''/'' then [] # splitSep cs
      else (case splitSep cs of [] \<Rightarrow> [[c]] | seg # segs \<Rightarrow> (c # seg) # segs))"

fun joinSep :: "string list \<Rightarrow> string" where
  "joinSep [] = []"
| "joinSep [s] = s"
| "joinSep (s # ss) = s @ ''/'' @ joinSep ss"

fun cleanSegs :: "bool \<Rightarrow> string list \<Rightarrow> string list \<Rightarrow> string list" where
  "cleanSegs rooted out [] = out"
| "cleanSegs rooted out (s # ss) =
     (if s = [] \<or> s = ''.'' then cleanSegs rooted out ss
      else if s = ''..'' then
        (if out \<noteq> [] \<and> last out \<noteq> ''..'' then cleanSegs rooted (butlast out) ss
         else if \<not> rooted then cleanSegs rooted (out @ [''..'']) ss
         else cleanSegs rooted out ss)
      else cleanSegs rooted (out @ [s]) ss)"

definition isRooted :: "string \<Rightarrow> bool" where
  "isRooted path = (path \<noteq> [] \<and> hd path = CHR ''/'')"

definition Clean :: "string \<Rightarrow> string" where
  "Clean path =
     (if path = [] then ''.''
      else let out = cleanSegs (isRooted path) [] (splitSep path)
           in if isRooted path then CHR ''/'' # joinSep out
              else if out = [] then ''.'' else joinSep out)"

text \<open>\<open>Join\<close> skips the leading empty elements, joins the rest with the separator and cleans.\<close>

definition Join :: "string list \<Rightarrow> string" where
  "Join elem =
     (case dropWhile (\<lambda>e. e = []) elem of [] \<Rightarrow> [] | e # es \<Rightarrow> Clean (joinSep (e # es)))"

text \<open>A path element that names a file or directory: no separator, not empty, not a dot name.\<close>

definition isName :: "string \<Rightarrow> bool" where
  "isName f = (CHR ''/'' \<notin> set f \<and> f \<noteq> [] \<and> f \<noteq> ''.'' \<and> f \<noteq> ''..'')"

section \<open>The git backend\<close>

text \<open>
  The error kinds of the store, and the error of the operating system that \<open>os.ReadFile\<close>
  returns (the operation and the path of an \<open>*fs.PathError\<close>).
\<close>

datatype error =
    PathError
  | NotFoundError
  | InvalidRevisionError
  | CommitError
  | DecryptionError
  | OSError string string

record GitBackend =
  dir :: string

text \<open>
  What an operation does besides returning: the calls on the backend's read-write mutex,
  the reads of the file system, and the calls of the backend's methods that read the
  repository, in the order they happen.
\<close>

datatype event =
    RLock
  | RUnlock
  | ReadFile string
  | Call_resolvePath string string
  | Call_pathAtRevision string string

text \<open>
  The files on disk, by path. \<open>os.ReadFile\<close> gives the bytes of a file that is there and
  the error of the failed \<open>open\<close> otherwise.
\<close>

type_synonym filesystem = "string \<rightharpoonup> string"

definition os_ReadFile :: "filesystem \<Rightarrow> string \<Rightarrow> error + string" where
  "os_ReadFile fs name =
     (case fs name of None \<Rightarrow> Inl (OSError ''open'' name) | Some bytes \<Rightarrow> Inr bytes)"

text \<open>
  \<open>GetPageAt\<close> is a method of the backend that \<open>GetPage\<close> calls; it is a parameter here,
  with the backend \<open>g\<close> it receives.
\<close>

definition GetPage :: "('g \<Rightarrow> string \<Rightarrow> string \<Rightarrow> 'r) \<Rightarrow> 'g \<Rightarrow> string \<Rightarrow> 'r" where
  "GetPage GetPageAt g title = GetPageAt g title ''HEAD''"

text \<open>
  \<open>GetFile\<close>. The methods \<open>resolvePath\<close> and \<open>pathAtRevision\<close> and the variable
  \<open>revision\<close> are not declared in the file; they are parameters. Each method returns a
  triple whose last component is the Go error (\<open>None\<close> is nil). The second short
  declaration assigns \<open>err\<close> again, so the error of \<open>resolvePath\<close> is never read. The final
  \<open>return b\<close> is taken as returning \<open>b\<close> with a nil error. The deferred \<open>RUnlock\<close> runs on
  both returns.
\<close>

definition GetFile ::
  "(string \<Rightarrow> string \<Rightarrow> string \<times> string \<times> 'e option) \<Rightarrow>
   (string \<Rightarrow> string \<Rightarrow> 'a \<times> 'b \<times> 'e option) \<Rightarrow>
   GitBackend \<Rightarrow> string \<Rightarrow> string \<Rightarrow> ('b option \<times> 'e option) \<times> event list" where
  "GetFile resolvePath pathAtRevision g revision name =
     (case resolvePath (dir g) name of (_, gitPath, err) \<Rightarrow>
        (case pathAtRevision gitPath revision of (_, b, err) \<Rightarrow>
           ((case err of Some e \<Rightarrow> (None, Some e) | None \<Rightarrow> (Some b, None)),
            [RLock, Call_resolvePath (dir g) name, Call_pathAtRevision gitPath revision,
             RUnlock])))"

text \<open>\<open>GetConfig\<close>: the path is built with \<open>filepath.Join\<close> and \<open>Sprintf "%s.json.enc"\<close>.\<close>

definition configPath :: "GitBackend \<Rightarrow> string \<Rightarrow> string" where
  "configPath g name = Join [dir g, ''.wiki'', name @ ''.json.enc'']"

definition GetConfig :: "GitBackend \<Rightarrow> filesystem \<Rightarrow> string \<Rightarrow> (error + string) \<times> event list" where
  "GetConfig g fs name =
     (let filePath = configPath g name
      in (os_ReadFile fs filePath, [ReadFile filePath]))"

text \<open>
  A trace keeps the read discipline when every access to the file system or the repository
  happens between an \<open>RLock\<close> and the next \<open>RUnlock\<close>.
\<close>

fun guarded :: "bool \<Rightarrow> event list \<Rightarrow> bool" where
  "guarded held [] = True"
| "guarded held (RLock # es) = guarded True es"
| "guarded held (RUnlock # es) = guarded False es"
| "guarded held (e # es) = (held \<and> guarded held es)"

definition reads_under_shared_lock :: "event list \<Rightarrow> bool" where
  "reads_under_shared_lock es = guarded False es"

text \<open>
  The contract of the configuration codec in the words of the specification, for
  comparison with \<open>GetConfig\<close>: the stored blob is decrypted with the process key
  (\<open>decrypt\<close> gives \<open>None\<close> when the blob does not decrypt), a missing blob is
  \<open>NotFoundError\<close>, a failed decryption is \<open>DecryptionError\<close>.
\<close>

definition GetConfig_spec ::
  "(string \<rightharpoonup> string) \<Rightarrow> GitBackend \<Rightarrow> filesystem \<Rightarrow> string \<Rightarrow> error + string" where
  "GetConfig_spec decrypt g fs name =
     (case fs (configPath g name) of
        None \<Rightarrow> Inl NotFoundError
      | Some blob \<Rightarrow>
          (case decrypt blob of None \<Rightarrow> Inl DecryptionError | Some plain \<Rightarrow> Inr plain))"

section \<open>The path resolver\<close>

text \<open>The reserved metadata directory, as \<open>GetConfig\<close> names it.\<close>

definition reservedDir :: string where
  "reservedDir = ''.wiki''"

text \<open>
  Modelled from the spec: the normalisation of a logical name is part of \<open>resolvePath\<close>,
  whose body is not in the source. Section 4.1 says "collapses whitespace/case" and section
  9 leaves the exact rule open; the model folds ASCII case, the convention of the
  \<open>LowerCaseCanonical\<close> middleware, and collapses the empty and \<open>.\<close> elements of the
  name. The normalised name is the list of the elements that are left.
\<close>

definition nameElements :: "string \<Rightarrow> string list" where
  "nameElements logicalName =
     filter (\<lambda>s. s \<noteq> [] \<and> s \<noteq> ''.'') (splitSep (map lowerASCII logicalName))"

text \<open>
  Modelled from the spec: \<open>resolvePath\<close> is called by \<open>GetFile\<close>, as
  \<open>g.resolvePath (g.dir, name)\<close> with three results, but its body is not in the source.
  The model has the signature of that call: the repository directory and the logical name
  go in; the path in the file system, the path relative to the repository root and the
  error come out. It follows the contract of section 4.1: the name is normalised and
  joined under the root; a name is rejected with \<open>PathError\<close> when it is empty (nothing is
  left of it after normalisation), has an absolute-path prefix, or has an element equal to
  \<open>..\<close> or to the reserved metadata directory.
\<close>

definition resolvePath :: "string \<Rightarrow> string \<Rightarrow> string \<times> string \<times> error option" where
  "resolvePath base logicalName =
     (let elems = nameElements logicalName
      in if elems = [] then ([], [], Some PathError)
         else if isRooted logicalName then ([], [], Some PathError)
         else if ''..'' \<in> set elems then ([], [], Some PathError)
         else if reservedDir \<in> set elems then ([], [], Some PathError)
         else (Join [base, joinSep elems], joinSep elems, None))"

text \<open>
  Walking a relative path from the repository root, element by element: \<open>descend d\<close> is at
  depth \<open>d\<close> below the root, and \<open>None\<close> says that the walk climbed above the root. A path
  lies strictly inside the tree of the root when the walk never leaves it and ends below
  the root.
\<close>

fun descend :: "nat \<Rightarrow> string list \<Rightarrow> nat option" where
  "descend d [] = Some d"
| "descend d (s # ss) =
     (if s = [] \<or> s = ''.'' then descend d ss
      else if s = ''..'' then (case d of 0 \<Rightarrow> None | Suc d' \<Rightarrow> descend d' ss)
      else descend (Suc d) ss)"

definition strictly_inside_root :: "string \<Rightarrow> bool" where
  "strictly_inside_root p =
     (\<not> isRooted p \<and>
      (case descend 0 (splitSep p) of None \<Rightarrow> False | Some d \<Rightarrow> 0 < d))"

text \<open>
  The place of a relative path below a directory: the cleaned directory, a separator and
  the relative path. A directory that cleans to no element is the current directory or
  the root of the file system, and adds nothing but the leading separator of the root.
\<close>

definition below :: "string \<Rightarrow> string \<Rightarrow> string" where
  "below base rel =
     (if cleanSegs (isRooted base) [] (splitSep base) = []
      then (if isRooted base then CHR ''/'' # rel else rel)
      else Clean base @ ''/'' @ rel)"

section \<open>Revisions, the commit writer and the history walker\<close>

text \<open>
  Modelled from the spec: no part of the source declares revisions. Section 3 gives a
  revision its identifier, author, timestamp, message and changed paths, and chains it to
  its parent.
\<close>

record revision =
  rev_id :: nat
  parent :: "nat option"
  author :: string
  timestamp :: nat
  message :: string
  changed :: "string list"

text \<open>
  Modelled from the spec: the state of the store is not declared in the source. It is the
  working copy (the bytes at each physical path) and the revisions from the tip back to
  the root of the chain.
\<close>

record store =
  working :: "string \<rightharpoonup> string"
  revisions :: "revision list"

text \<open>Modelled from the spec: the tip is the most recently committed revision, if any.\<close>

definition tip :: "store \<Rightarrow> nat option" where
  "tip s = (case revisions s of [] \<Rightarrow> None | r # _ \<Rightarrow> Some (rev_id r))"

text \<open>
  Modelled from the spec: staging is not in the source. Section 4.4 stages exactly the
  given physical paths; staging a path can fail (a disk error), and which paths do is
  decided by the environment, here \<open>stage_ok\<close>. The result is the index with the paths
  added, or \<open>None\<close> at the first path that fails.
\<close>

fun stage :: "(string \<Rightarrow> bool) \<Rightarrow> string list \<Rightarrow> string list \<Rightarrow> string list option" where
  "stage stage_ok index [] = Some index"
| "stage stage_ok index (p # ps) =
     (if stage_ok p then stage stage_ok (index @ [p]) ps else None)"

text \<open>
  Modelled from the spec: the commit writer is not in the source. This is the contract
  \<open>commit (physicalPaths, author, message)\<close> of section 4.4: the given paths are staged,
  then one revision is made whose parent is the tip, and it becomes the new tip. Recording
  the revision can fail as staging can (\<open>commit_ok\<close>). A failure of either is
  \<open>CommitError\<close>. The new identifier \<open>fresh\<close> and the time \<open>now\<close> are given by the
  environment.
\<close>

definition commit ::
  "(string \<Rightarrow> bool) \<Rightarrow> bool \<Rightarrow> nat \<Rightarrow> nat \<Rightarrow> store \<Rightarrow> string list \<Rightarrow> string \<Rightarrow> string
     \<Rightarrow> (error + revision) \<times> store" where
  "commit stage_ok commit_ok fresh now s physicalPaths auth msg =
     (case stage stage_ok [] physicalPaths of
        None \<Rightarrow> (Inl CommitError, s)
      | Some index \<Rightarrow>
          if \<not> commit_ok then (Inl CommitError, s)
          else let r = \<lparr>rev_id = fresh, parent = tip s, author = auth, timestamp = now,
                         message = msg, changed = index\<rparr>
               in (Inr r, s\<lparr>revisions := r # revisions s\<rparr>))"

text \<open>
  Modelled from the spec: \<open>LogEntry\<close> is used by the templates but not declared in the
  source. Section 3 makes it the projection of one revision: identifier, author, timestamp
  and message.
\<close>

record log_entry =
  entry_rev :: nat
  entry_author :: string
  entry_timestamp :: nat
  entry_message :: string

text \<open>Modelled from the spec: the projection of a revision to its log entry.\<close>

definition entryOf :: "revision \<Rightarrow> log_entry" where
  "entryOf r = \<lparr>entry_rev = rev_id r, entry_author = author r,
                entry_timestamp = timestamp r, entry_message = message r\<rparr>"

text \<open>
  Modelled from the spec: a walk scoped to a path includes the revisions whose set of
  changed paths contains it.
\<close>

definition touches :: "string \<Rightarrow> revision \<Rightarrow> bool" where
  "touches path r = (path \<in> set (changed r))"

text \<open>
  Modelled from the spec: the history walker is not in the source. By section 4.5 the walk
  goes from the resume point towards the root of the chain, newest revision first, and
  keeps the revisions that touch the path; it stops after collecting \<open>pageSize\<close> entries
  or exhausting the chain. The test for a full page is made when an entry has been
  collected, so a walk over a chain that is not exhausted has a last-visited revision for
  its cursor. The next cursor is empty (\<open>None\<close>) when the chain is exhausted and the
  last-visited revision otherwise.
\<close>

fun walk :: "string \<Rightarrow> nat \<Rightarrow> revision list \<Rightarrow> log_entry list \<times> nat option" where
  "walk path k [] = ([], None)"
| "walk path k (r # rs) =
     (if touches path r
      then (if k \<le> 1 then ([entryOf r], if rs = [] then None else Some (rev_id r))
            else (case walk path (k - 1) rs of
                    (entries, nextCursor) \<Rightarrow> (entryOf r # entries, nextCursor)))
      else walk path k rs)"

text \<open>
  Modelled from the spec: a cursor says "resume immediately after this revision"; the
  empty cursor starts at the tip.
\<close>

definition resume :: "revision list \<Rightarrow> nat option \<Rightarrow> revision list" where
  "resume ch cursor =
     (case cursor of None \<Rightarrow> ch | Some c \<Rightarrow> drop 1 (dropWhile (\<lambda>r. rev_id r \<noteq> c) ch))"

text \<open>
  Modelled from the spec: the contract \<open>history (path, cursor, pageSize)\<close> of section 4.5,
  giving the entries of one page and the next cursor.
\<close>

definition history :: "revision list \<Rightarrow> string \<Rightarrow> nat option \<Rightarrow> nat \<Rightarrow> log_entry list \<times> nat option" where
  "history ch path cursor pageSize = walk path pageSize (resume ch cursor)"



text \<open>A chain of three revisions, two of which change \<open>home.md\<close>.\<close>

definition example_chain :: "revision list" where
  "example_chain =
     [\<lparr>rev_id = 3, parent = Some 2, author = ''ann'', timestamp = 30, message = ''edit home'',
        changed = [''home.md'']\<rparr>,
      \<lparr>rev_id = 2, parent = Some 1, author = ''bob'', timestamp = 20, message = ''add about'',
        changed = [''about.md'']\<rparr>,
      \<lparr>rev_id = 1, parent = None, author = ''ann'', timestamp = 10, message = ''add home'',
        changed = [''home.md'']\<rparr>]"






section \<open>Properties\<close>

subsection \<open>Reading a page at the tip\<close>

text \<open>
  C8. For every title, \<open>GetPage title\<close> returns exactly what \<open>GetPageAt title "HEAD"\<close>
  returns, page or error, whatever \<open>GetPageAt\<close> does.
\<close>

theorem GetPage_is_GetPageAt_HEAD:
  "GetPage GetPageAt g title = GetPageAt g title ''HEAD''"
  by (simp add: GetPage_def)

subsection \<open>Route authentication\<close>

lemma findPrefix_None_iff:
  "findPrefix ord t = None \<longleftrightarrow> (\<forall>k b. (k, b) \<in> set ord \<longrightarrow> \<not> prefix k t)"
proof (induction ord)
  case Nil
  show ?case by simp
next
  case (Cons e ord)
  obtain i b where e: "e = (i, b)" by (cases e)
  show ?case using Cons.IH by (auto simp: e)
qed

lemma findPrefix_SomeD:
  "findPrefix ord t = Some b \<Longrightarrow> \<exists>k. (k, b) \<in> set ord \<and> prefix k t"
  by (induction ord) (auto split: if_splits)

text \<open>No known route prefix is a prefix of another one.\<close>

lemma route_keys:
  "(k, b) \<in> set (authRequirements ar aw) \<Longrightarrow>
     k \<in> {''/edit/'', ''/file/'', ''/history/'', ''/view/'', ''/wiki/index'',
          ''/wiki/files'', ''/wiki/login'', ''/wiki/logout'', ''/wiki/upload''}"
  by (auto simp: authRequirements_def)

lemma route_prefix_free:
  assumes "(k1, b1) \<in> set (authRequirements ar aw)"
    and "(k2, b2) \<in> set (authRequirements ar aw)"
    and "prefix k1 k2"
  shows "k1 = k2"
  using route_keys [OF assms(1)] route_keys [OF assms(2)] assms(3)
  by (elim insertE emptyE) simp_all

lemma route_match_unique:
  assumes "(k1, b1) \<in> set (authRequirements ar aw)"
    and "(k2, b2) \<in> set (authRequirements ar aw)"
    and "prefix k1 t" and "prefix k2 t"
  shows "k1 = k2"
proof -
  from assms(3,4) have "prefix k1 k2 \<or> prefix k2 k1"
    by (rule prefix_same_cases)
  then show ?thesis
    using route_prefix_free [OF assms(1,2)] route_prefix_free [OF assms(2,1)] by auto
qed

lemma findPrefix_any_order:
  assumes it: "iteration_of (authRequirements ar aw) ord"
    and mem: "(k, b) \<in> set (authRequirements ar aw)"
    and pre: "prefix k t"
  shows "findPrefix ord t = Some b"
proof -
  from it have same: "set ord = set (authRequirements ar aw)"
    and dist: "distinct (map fst ord)"
    by (simp_all add: iteration_of_def)
  from mem same have mem': "(k, b) \<in> set ord" by simp
  with pre have "findPrefix ord t \<noteq> None"
    by (auto simp: findPrefix_None_iff)
  then obtain b' where res: "findPrefix ord t = Some b'" by auto
  then obtain k' where k': "(k', b') \<in> set ord" "prefix k' t"
    by (auto dest: findPrefix_SomeD)
  from k'(1) same have "(k', b') \<in> set (authRequirements ar aw)" by simp
  from route_match_unique [OF this mem k'(2) pre] have "k' = k" .
  with k'(1) mem' dist have "b' = b"
    by (auto dest: eq_key_imp_eq_value)
  with res show ?thesis by simp
qed

lemma findPrefix_unknown_any_order:
  assumes it: "iteration_of (authRequirements ar aw) ord"
    and none: "\<forall>k b. (k, b) \<in> set (authRequirements ar aw) \<longrightarrow> \<not> prefix k t"
  shows "findPrefix ord t = None"
  using assms by (simp add: findPrefix_None_iff iteration_of_def)

lemma iteration_of_self: "iteration_of (authRequirements ar aw) (authRequirements ar aw)"
  by (simp add: iteration_of_def authRequirements_def)

text \<open>
  The context carries a user exactly when the key \<open>"user"\<close> holds a \<open>*config.User\<close>.
\<close>

lemma getUserForRequest_None_iff:
  "getUserForRequest request = None \<longleftrightarrow> (\<forall>u. Context request ''user'' \<noteq> Some (UserVal u))"
  by (auto simp: getUserForRequest_def contextUserKey_def split: option.splits ctxval.splits)

text \<open>
  C9. Whatever order the map is ranged over: a path that none of the nine prefixes matches is
  answered 404 and the next handler is not called; a path under a prefix that requires
  authentication, in a request whose context holds no user under the key \<open>"user"\<close>, is
  answered 401 and the next handler is not called; every other request, so every request
  with a user in its context and every request under a prefix that requires no
  authentication, is handed to the next handler. The lookup itself gives the same answer in
  every iteration order.
\<close>

theorem CheckAuthentication_outcome:
  assumes "iteration_of (authRequirements authForReads authForWrites) ord"
  shows "findPrefix ord (URL_Path request) =
           findPrefix (authRequirements authForReads authForWrites) (URL_Path request)
       \<and> ((\<forall>k b. (k, b) \<in> set (authRequirements authForReads authForWrites)
                  \<longrightarrow> \<not> prefix k (URL_Path request))
            \<longrightarrow> CheckAuthentication ord next writer request = writer @ [WriteHeader 404])
       \<and> (\<forall>k b. (k, b) \<in> set (authRequirements authForReads authForWrites)
                  \<and> prefix k (URL_Path request)
            \<longrightarrow> CheckAuthentication ord next writer request =
                  (if b \<and> (\<forall>u. Context request ''user'' \<noteq> Some (UserVal u))
                   then writer @ [WriteHeader 401] else next writer request))"
proof (intro conjI allI impI)
  show "findPrefix ord (URL_Path request) =
          findPrefix (authRequirements authForReads authForWrites) (URL_Path request)"
  proof (cases "\<exists>k b. (k, b) \<in> set (authRequirements authForReads authForWrites)
                        \<and> prefix k (URL_Path request)")
    case True
    then obtain k b where kb: "(k, b) \<in> set (authRequirements authForReads authForWrites)"
      "prefix k (URL_Path request)" by blast
    show ?thesis
      using findPrefix_any_order [OF assms kb] findPrefix_any_order [OF iteration_of_self kb]
      by simp
  next
    case False
    then have none: "\<forall>k b. (k, b) \<in> set (authRequirements authForReads authForWrites)
                        \<longrightarrow> \<not> prefix k (URL_Path request)" by blast
    show ?thesis
      using findPrefix_unknown_any_order [OF assms none]
        findPrefix_unknown_any_order [OF iteration_of_self none] by simp
  qed
next
  assume "\<forall>k b. (k, b) \<in> set (authRequirements authForReads authForWrites)
                  \<longrightarrow> \<not> prefix k (URL_Path request)"
  from findPrefix_unknown_any_order [OF assms this]
  show "CheckAuthentication ord next writer request = writer @ [WriteHeader 404]"
    by (simp add: CheckAuthentication_def StatusNotFound_def)
next
  fix k b
  assume "(k, b) \<in> set (authRequirements authForReads authForWrites)
            \<and> prefix k (URL_Path request)"
  then have "findPrefix ord (URL_Path request) = Some b"
    using findPrefix_any_order [OF assms] by blast
  then show "CheckAuthentication ord next writer request =
               (if b \<and> (\<forall>u. Context request ''user'' \<noteq> Some (UserVal u))
                then writer @ [WriteHeader 401] else next writer request)"
    by (simp add: CheckAuthentication_def StatusUnauthorized_def
        getUserForRequest_None_iff [symmetric])
qed

theorem CheckAuthentication_outcome_witness:
  "iteration_of (authRequirements True False) (rev (authRequirements True False))
   \<and> CheckAuthentication (rev (authRequirements True False)) (\<lambda>w r. w @ [Body ''served''])
       [] \<lparr>RequestURI = ''/nowhere'', URL_Path = ''/nowhere'', Context = Map.empty\<rparr>
     = [WriteHeader 404]
   \<and> CheckAuthentication (rev (authRequirements True False)) (\<lambda>w r. w @ [Body ''served''])
       [] \<lparr>RequestURI = ''/view/home'', URL_Path = ''/view/home'', Context = Map.empty\<rparr>
     = [WriteHeader 401]
   \<and> CheckAuthentication (rev (authRequirements True False)) (\<lambda>w r. w @ [Body ''served''])
       [] \<lparr>RequestURI = ''/view/home'', URL_Path = ''/view/home'',
           Context = [''user'' \<mapsto> ErrorVal ''not a user'']\<rparr>
     = [WriteHeader 401]
   \<and> CheckAuthentication (rev (authRequirements True False)) (\<lambda>w r. w @ [Body ''served''])
       [] \<lparr>RequestURI = ''/view/home'', URL_Path = ''/view/home'',
           Context = [''user'' \<mapsto> UserVal ''ann'']\<rparr>
     = [Body ''served'']
   \<and> CheckAuthentication (rev (authRequirements True False)) (\<lambda>w r. w @ [Body ''served''])
       [] \<lparr>RequestURI = ''/edit/home'', URL_Path = ''/edit/home'', Context = Map.empty\<rparr>
     = [Body ''served'']"
proof -
  have "distinct (map fst (authRequirements True False))"
    by (simp add: authRequirements_def)
  then have it: "iteration_of (authRequirements True False) (rev (authRequirements True False))"
    by (simp add: iteration_of_def rev_map [symmetric])
  let ?next = "\<lambda>(w::writer) (r::request). w @ [Body ''served'']"
  let ?r1 = "\<lparr>RequestURI = ''/nowhere'', URL_Path = ''/nowhere'', Context = Map.empty\<rparr>"
  let ?r2 = "\<lparr>RequestURI = ''/view/home'', URL_Path = ''/view/home'', Context = Map.empty\<rparr>"
  let ?r3 = "\<lparr>RequestURI = ''/view/home'', URL_Path = ''/view/home'',
               Context = [''user'' \<mapsto> ErrorVal ''not a user'']\<rparr>"
  let ?r4 = "\<lparr>RequestURI = ''/view/home'', URL_Path = ''/view/home'',
               Context = [''user'' \<mapsto> UserVal ''ann'']\<rparr>"
  let ?r5 = "\<lparr>RequestURI = ''/edit/home'', URL_Path = ''/edit/home'', Context = Map.empty\<rparr>"
  have none: "\<forall>k b. (k, b) \<in> set (authRequirements True False)
                \<longrightarrow> \<not> prefix k (URL_Path ?r1)"
    by (auto simp: authRequirements_def)
  have view2: "(''/view/'', True) \<in> set (authRequirements True False)
                \<and> prefix ''/view/'' (URL_Path ?r2)"
    by (simp add: authRequirements_def)
  have view3: "(''/view/'', True) \<in> set (authRequirements True False)
                \<and> prefix ''/view/'' (URL_Path ?r3)"
    by (simp add: authRequirements_def)
  have view4: "(''/view/'', True) \<in> set (authRequirements True False)
                \<and> prefix ''/view/'' (URL_Path ?r4)"
    by (simp add: authRequirements_def)
  have edit: "(''/edit/'', False) \<in> set (authRequirements True False)
                \<and> prefix ''/edit/'' (URL_Path ?r5)"
    by (simp add: authRequirements_def)
  have a: "CheckAuthentication (rev (authRequirements True False)) ?next [] ?r1
             = [WriteHeader 404]"
    using CheckAuthentication_outcome [OF it, of ?r1 ?next "[]",
        THEN conjunct2, THEN conjunct1, THEN mp, OF none]
    by simp
  have b: "CheckAuthentication (rev (authRequirements True False)) ?next [] ?r2
             = [WriteHeader 401]"
    using CheckAuthentication_outcome [OF it, of ?r2 ?next "[]",
        THEN conjunct2, THEN conjunct2, THEN spec, THEN spec, THEN mp, OF view2]
    by simp
  have c: "CheckAuthentication (rev (authRequirements True False)) ?next [] ?r3
             = [WriteHeader 401]"
    using CheckAuthentication_outcome [OF it, of ?r3 ?next "[]",
        THEN conjunct2, THEN conjunct2, THEN spec, THEN spec, THEN mp, OF view3]
    by simp
  have d: "CheckAuthentication (rev (authRequirements True False)) ?next [] ?r4
             = [Body ''served'']"
    using CheckAuthentication_outcome [OF it, of ?r4 ?next "[]",
        THEN conjunct2, THEN conjunct2, THEN spec, THEN spec, THEN mp, OF view4]
    by simp
  have e: "CheckAuthentication (rev (authRequirements True False)) ?next [] ?r5
             = [Body ''served'']"
    using CheckAuthentication_outcome [OF it, of ?r5 ?next "[]",
        THEN conjunct2, THEN conjunct2, THEN spec, THEN spec, THEN mp, OF edit]
    by simp
  from it a b c d e show ?thesis by simp
qed

subsection \<open>Canonical lower case\<close>

text \<open>
  For a URI of ASCII bytes, being its own lower-case form is having no upper-case letter.
\<close>

lemma lowerASCII_fixed: "lowerASCII c = c \<longleftrightarrow> \<not> isUpperASCII c"
proof (cases "isUpperASCII c")
  case True
  have "char_of ((of_char c :: nat) + 32) \<noteq> c"
  proof
    assume "char_of ((of_char c :: nat) + 32) = c"
    then have "(of_char (char_of ((of_char c :: nat) + 32)) :: nat) = of_char c" by simp
    with True show False by (simp add: isUpperASCII_def)
  qed
  with True show ?thesis by (simp add: lowerASCII_def)
next
  case False
  then show ?thesis by (simp add: lowerASCII_def)
qed

lemma ToLower_ascii_fixed:
  "list_all isASCII s \<Longrightarrow> ToLower uni s = s \<longleftrightarrow> \<not> list_ex isUpperASCII s"
  by (induction s) (auto simp: ToLower_def lowerASCII_fixed)

text \<open>
  C10. A request whose \<open>RequestURI\<close> differs from its lower-case form is answered by
  \<open>http.Redirect\<close> to the lower-cased URI with status 308, and the next handler is not
  called; a request whose \<open>RequestURI\<close> is its own lower-case form is passed, unchanged, to
  the next handler.
\<close>

theorem LowerCaseCanonical_outcome:
  "(ToLower uni (RequestURI request) \<noteq> RequestURI request \<longrightarrow>
      LowerCaseCanonical uni next writer request =
        writer @ [Redirect (ToLower uni (RequestURI request)) 308])
   \<and> (ToLower uni (RequestURI request) = RequestURI request \<longrightarrow>
      LowerCaseCanonical uni next writer request = next writer request)"
  by (simp add: LowerCaseCanonical_def StatusPermanentRedirect_def)

theorem LowerCaseCanonical_outcome_witness:
  "LowerCaseCanonical id (\<lambda>w r. w @ [Body (RequestURI r)]) []
       \<lparr>RequestURI = ''/View/Home'', URL_Path = ''/View/Home'', Context = Map.empty\<rparr>
     = [Redirect ''/view/home'' 308]
   \<and> LowerCaseCanonical id (\<lambda>w r. w @ [Body (RequestURI r)]) []
       \<lparr>RequestURI = ''/view/home'', URL_Path = ''/view/home'', Context = Map.empty\<rparr>
     = [Body ''/view/home'']"
proof -
  have up: "ToLower id ''/View/Home'' = ''/view/home''"
    by code_simp
  have low: "ToLower id ''/view/home'' = ''/view/home''"
    by code_simp
  from LowerCaseCanonical_outcome [of id
      "\<lparr>RequestURI = ''/View/Home'', URL_Path = ''/View/Home'', Context = Map.empty\<rparr>"
      "\<lambda>w r. w @ [Body (RequestURI r)]" "[]"] up
  have a: "LowerCaseCanonical id (\<lambda>w r. w @ [Body (RequestURI r)]) []
       \<lparr>RequestURI = ''/View/Home'', URL_Path = ''/View/Home'', Context = Map.empty\<rparr>
     = [Redirect ''/view/home'' 308]" by simp
  from LowerCaseCanonical_outcome [of id
      "\<lparr>RequestURI = ''/view/home'', URL_Path = ''/view/home'', Context = Map.empty\<rparr>"
      "\<lambda>w r. w @ [Body (RequestURI r)]" "[]"] low
  have b: "LowerCaseCanonical id (\<lambda>w r. w @ [Body (RequestURI r)]) []
       \<lparr>RequestURI = ''/view/home'', URL_Path = ''/view/home'', Context = Map.empty\<rparr>
     = [Body ''/view/home'']" by simp
  from a b show ?thesis by simp
qed

subsection \<open>Lexical path cleaning\<close>

lemma splitSep_not_Nil: "splitSep s \<noteq> []"
  by (induction s) (auto split: list.splits)

lemma splitSep_no_separator: "CHR ''/'' \<notin> set s \<Longrightarrow> splitSep s = [s]"
  by (induction s) auto

lemma splitSep_append_separator:
  "splitSep (a @ CHR ''/'' # b) = splitSep a @ splitSep b"
  by (induction a) (auto split: list.splits simp: splitSep_not_Nil)

lemma cleanSegs_append:
  "cleanSegs r out (xs @ ys) = cleanSegs r (cleanSegs r out xs) ys"
  by (induction xs arbitrary: out) auto

lemma joinSep_snoc: "out \<noteq> [] \<Longrightarrow> joinSep (out @ [s]) = joinSep out @ ''/'' @ s"
  by (induction out rule: joinSep.induct) auto

lemma cleanSegs_name: "isName f \<Longrightarrow> cleanSegs r out [f] = out @ [f]"
  by (simp add: isName_def)

lemma isRooted_append: "p \<noteq> [] \<Longrightarrow> isRooted (p @ q) = isRooted p"
  by (simp add: isRooted_def)

lemma Clean_append_name:
  assumes p: "p \<noteq> []" and f: "isName f"
    and out: "cleanSegs (isRooted p) [] (splitSep p) \<noteq> []"
  shows "Clean (p @ ''/'' @ f) = Clean p @ ''/'' @ f"
proof -
  define out where "out = cleanSegs (isRooted p) [] (splitSep p)"
  from out have ne: "out \<noteq> []" by (simp add: out_def)
  from f have split: "splitSep (p @ ''/'' @ f) = splitSep p @ [f]"
    by (simp add: splitSep_append_separator splitSep_no_separator isName_def)
  have rooted: "isRooted (p @ ''/'' @ f) = isRooted p"
    using p by (rule isRooted_append)
  have segs: "cleanSegs (isRooted p) [] (splitSep (p @ ''/'' @ f)) = out @ [f]"
    by (simp only: split cleanSegs_append cleanSegs_name [OF f] out_def)
  have long: "Clean (p @ ''/'' @ f) =
      (if isRooted p then CHR ''/'' # joinSep (out @ [f]) else joinSep (out @ [f]))"
    unfolding Clean_def Let_def rooted segs by simp
  have short: "Clean p = (if isRooted p then CHR ''/'' # joinSep out else joinSep out)"
    unfolding Clean_def Let_def out_def [symmetric] using p ne by simp
  show ?thesis
    unfolding long short by (simp add: joinSep_snoc [OF ne])
qed

lemma cleanSegs_under_name:
  assumes m: "isName m"
  shows "cleanSegs r [] (splitSep (d @ ''/'' @ m)) \<noteq> []"
proof -
  from m have "splitSep (d @ ''/'' @ m) = splitSep d @ [m]"
    by (simp add: splitSep_append_separator splitSep_no_separator isName_def)
  then have "cleanSegs r [] (splitSep (d @ ''/'' @ m)) = cleanSegs r [] (splitSep d) @ [m]"
    by (simp only: cleanSegs_append cleanSegs_name [OF m])
  then show ?thesis by simp
qed

lemma Join_under_name:
  assumes m: "isName m" and f: "isName f"
  shows "Join [d, m, f] = Join [d, m] @ ''/'' @ f"
proof (cases "d = []")
  case True
  from m have m': "m \<noteq> []" by (simp add: isName_def)
  from m have "cleanSegs (isRooted m) [] (splitSep m) \<noteq> []"
    by (simp add: splitSep_no_separator isName_def)
  from Clean_append_name [OF m' f this] True m' show ?thesis
    by (simp add: Join_def)
next
  case False
  have ne: "d @ ''/'' @ m \<noteq> []" by simp
  from Clean_append_name [OF ne f cleanSegs_under_name [OF m]] False show ?thesis
    by (simp add: Join_def)
qed

lemma isName_wiki: "isName ''.wiki''"
  by (simp add: isName_def)

lemma isName_config_file: "CHR ''/'' \<notin> set name \<Longrightarrow> isName (name @ ''.json.enc'')"
  by (auto simp: isName_def append_eq_Cons_conv)

lemma configPath_name:
  "CHR ''/'' \<notin> set name \<Longrightarrow>
     configPath g name = Join [dir g, ''.wiki''] @ ''/'' @ name @ ''.json.enc''"
  by (simp add: configPath_def Join_under_name [OF isName_wiki isName_config_file])

subsection \<open>Configuration blobs\<close>

text \<open>
  C1, as the code has it. \<open>GetConfig\<close> returns the bytes of the file exactly as they are on
  disk, or the error of the failed read. Nothing is decrypted, and the result is never
  \<open>DecryptionError\<close>.
\<close>

theorem GetConfig_returns_stored_bytes:
  "fst (GetConfig g fs name) =
     (case fs (configPath g name) of
        None \<Rightarrow> Inl (OSError ''open'' (configPath g name))
      | Some raw \<Rightarrow> Inr raw)
   \<and> fst (GetConfig g fs name) \<noteq> Inl DecryptionError"
  by (simp add: GetConfig_def Let_def os_ReadFile_def split: option.split)

text \<open>
  C1, as the specification states it, fails: where the stored blob has been tampered with,
  so that it decrypts under no key, the contract asks for \<open>DecryptionError\<close> and
  \<open>GetConfig\<close> returns the tampered bytes themselves.
\<close>

theorem GetConfig_raw_bytes_counterexample:
  "fst (GetConfig \<lparr>dir = ''/srv/wiki''\<rparr>
         [''/srv/wiki/.wiki/users.json.enc'' \<mapsto> ''tampered''] ''users'') = Inr ''tampered''
   \<and> GetConfig_spec Map.empty \<lparr>dir = ''/srv/wiki''\<rparr>
         [''/srv/wiki/.wiki/users.json.enc'' \<mapsto> ''tampered''] ''users'' = Inl DecryptionError"
proof -
  have path: "configPath \<lparr>dir = ''/srv/wiki''\<rparr> ''users'' = ''/srv/wiki/.wiki/users.json.enc''"
    by code_simp
  show ?thesis
    by (simp add: GetConfig_def Let_def GetConfig_spec_def os_ReadFile_def path)
qed

text \<open>
  C5, for names without a separator. The blob of such a name is the file \<open>name.json.enc\<close>
  directly inside the metadata directory \<open>Join [dir, ".wiki"]\<close>; two such names never share
  a file; and \<open>GetConfig\<close> is one plain read of that file and nothing else: no lock, no
  commit, no revision lookup.
\<close>

theorem GetConfig_file_in_metadata_dir:
  assumes "CHR ''/'' \<notin> set name"
  shows "configPath g name = Join [dir g, ''.wiki''] @ ''/'' @ name @ ''.json.enc''
       \<and> inj_on (configPath g) {n. CHR ''/'' \<notin> set n}
       \<and> GetConfig g fs name = (os_ReadFile fs (configPath g name), [ReadFile (configPath g name)])"
proof (intro conjI)
  show "configPath g name = Join [dir g, ''.wiki''] @ ''/'' @ name @ ''.json.enc''"
    using assms by (rule configPath_name)
  show "inj_on (configPath g) {n. CHR ''/'' \<notin> set n}"
    by (rule inj_onI) (simp add: configPath_name)
  show "GetConfig g fs name = (os_ReadFile fs (configPath g name), [ReadFile (configPath g name)])"
    by (simp add: GetConfig_def Let_def)
qed

theorem GetConfig_file_in_metadata_dir_witness:
  "CHR ''/'' \<notin> set ''users''
   \<and> configPath \<lparr>dir = ''/srv/wiki''\<rparr> ''users'' = ''/srv/wiki/.wiki/users.json.enc''
   \<and> configPath \<lparr>dir = ''/srv/wiki''\<rparr> ''users'' \<noteq> configPath \<lparr>dir = ''/srv/wiki''\<rparr> ''settings''
   \<and> GetConfig \<lparr>dir = ''/srv/wiki''\<rparr> Map.empty ''users'' =
       (Inl (OSError ''open'' ''/srv/wiki/.wiki/users.json.enc''),
        [ReadFile ''/srv/wiki/.wiki/users.json.enc''])"
proof -
  have users: "CHR ''/'' \<notin> set ''users''" by simp
  have settings: "CHR ''/'' \<notin> set ''settings''" by simp
  have meta: "Join [''/srv/wiki'', ''.wiki''] = ''/srv/wiki/.wiki''" by code_simp
  note inst = GetConfig_file_in_metadata_dir [OF users, of "\<lparr>dir = ''/srv/wiki''\<rparr>" Map.empty]
  from inst have path:
    "configPath \<lparr>dir = ''/srv/wiki''\<rparr> ''users'' = ''/srv/wiki/.wiki/users.json.enc''"
    by (simp add: meta)
  from inst have "inj_on (configPath \<lparr>dir = ''/srv/wiki''\<rparr>) {n. CHR ''/'' \<notin> set n}"
    by simp
  from inj_onD [OF this, of "''users''" "''settings''"] users settings
  have differ: "configPath \<lparr>dir = ''/srv/wiki''\<rparr> ''users''
                  \<noteq> configPath \<lparr>dir = ''/srv/wiki''\<rparr> ''settings''"
    by auto
  from inst path have read: "GetConfig \<lparr>dir = ''/srv/wiki''\<rparr> Map.empty ''users'' =
       (Inl (OSError ''open'' ''/srv/wiki/.wiki/users.json.enc''),
        [ReadFile ''/srv/wiki/.wiki/users.json.enc''])"
    by (simp add: os_ReadFile_def)
  from users path differ read show ?thesis by simp
qed

text \<open>
  C5, for every name, fails: a name with a parent-directory element gives a file outside
  the metadata directory.
\<close>

theorem GetConfig_file_outside_metadata_dir_counterexample:
  "configPath \<lparr>dir = ''/srv/wiki''\<rparr> ''../secrets'' = ''/srv/wiki/secrets.json.enc''
   \<and> Join [''/srv/wiki'', ''.wiki''] = ''/srv/wiki/.wiki''
   \<and> \<not> prefix ''/srv/wiki/.wiki/'' (configPath \<lparr>dir = ''/srv/wiki''\<rparr> ''../secrets'')"
proof -
  have path: "configPath \<lparr>dir = ''/srv/wiki''\<rparr> ''../secrets'' = ''/srv/wiki/secrets.json.enc''"
    by code_simp
  have meta: "Join [''/srv/wiki'', ''.wiki''] = ''/srv/wiki/.wiki''" by code_simp
  show ?thesis by (simp add: path meta)
qed

subsection \<open>The read lock\<close>

lemma GetFile_reads_under_shared_lock:
  "reads_under_shared_lock (snd (GetFile resolvePath pathAtRevision g revision name))"
  by (simp add: GetFile_def reads_under_shared_lock_def split: prod.split)

text \<open>
  C2 at \<open>GetConfig\<close>. \<open>GetFile\<close> holds the shared lock around everything it reads
  (\<open>GetFile_reads_under_shared_lock\<close>), but \<open>GetConfig\<close> reads its file without ever taking
  the lock, for every backend, file system and name.
\<close>

theorem GetConfig_reads_without_lock:
  "\<not> reads_under_shared_lock (snd (GetConfig g fs name))
   \<and> RLock \<notin> set (snd (GetConfig g fs name))"
  by (simp add: GetConfig_def Let_def reads_under_shared_lock_def)

subsection \<open>Errors of the store\<close>

text \<open>
  A failed save of the session cookie is logged and goes no further: \<open>putSessionKey\<close> has no
  error to return, and the only trace of the failure is the line in the log.
\<close>

lemma putSessionKey_logs_failed_save:
  assumes "getSessionForRequest r = Some s"
  shows "snd (snd (putSessionKey (\<lambda>s w. (w, Some err)) w r key val log))
           = log @ [''Unable to save session: '' @ err]"
  using assms by (simp add: putSessionKey_def Let_def)

lemma GetFile_ignores_resolvePath_error:
  "fst (GetFile resolvePath pathAtRevision g revision name) =
   fst (GetFile (\<lambda>d n. case resolvePath d n of (fsPath, gitPath, err) \<Rightarrow> (fsPath, gitPath, None))
          pathAtRevision g revision name)"
  by (simp add: GetFile_def split: prod.split)

text \<open>
  C7 at \<open>GetFile\<close>. When \<open>resolvePath\<close> fails with \<open>PathError\<close> and \<open>pathAtRevision\<close> then
  succeeds, \<open>GetFile\<close> returns the content with a nil error: the error of \<open>resolvePath\<close> has
  been overwritten before anything looked at it.
\<close>

theorem GetFile_drops_resolvePath_error:
  "fst (GetFile (\<lambda>d n. ([], [], Some PathError)) (\<lambda>p r. ((), ''blob'', None))
         \<lparr>dir = ''/srv/wiki''\<rparr> ''HEAD'' ''../secret'') = (Some ''blob'', None)"
  by (simp add: GetFile_def)

subsection \<open>Path resolution\<close>

lemma lowerASCII_eq_slash [simp]: "lowerASCII c = CHR ''/'' \<longleftrightarrow> c = CHR ''/''"
proof
  assume a: "lowerASCII c = CHR ''/''"
  show "c = CHR ''/''"
  proof (cases "isUpperASCII c")
    case True
    with a have "char_of ((of_char c :: nat) + 32) = CHR ''/''" by (simp add: lowerASCII_def)
    then have "(of_char (char_of ((of_char c :: nat) + 32)) :: nat) = of_char (CHR ''/'')" by simp
    with True show ?thesis by (simp add: isUpperASCII_def)
  next
    case False
    with a show ?thesis by (simp add: lowerASCII_def)
  qed
next
  assume "c = CHR ''/''"
  then show "lowerASCII c = CHR ''/''" by (simp add: lowerASCII_def isUpperASCII_def)
qed

lemma lowerASCII_eq_dot [simp]: "lowerASCII c = CHR ''.'' \<longleftrightarrow> c = CHR ''.''"
proof
  assume a: "lowerASCII c = CHR ''.''"
  show "c = CHR ''.''"
  proof (cases "isUpperASCII c")
    case True
    with a have "char_of ((of_char c :: nat) + 32) = CHR ''.''" by (simp add: lowerASCII_def)
    then have "(of_char (char_of ((of_char c :: nat) + 32)) :: nat) = of_char (CHR ''.'')" by simp
    with True show ?thesis by (simp add: isUpperASCII_def)
  next
    case False
    with a show ?thesis by (simp add: lowerASCII_def)
  qed
next
  assume "c = CHR ''.''"
  then show "lowerASCII c = CHR ''.''" by (simp add: lowerASCII_def isUpperASCII_def)
qed

lemma splitSep_lowerASCII: "splitSep (map lowerASCII n) = map (map lowerASCII) (splitSep n)"
  by (induction n) (auto split: list.splits)

lemma splitSep_separator_free: "s \<in> set (splitSep x) \<Longrightarrow> CHR ''/'' \<notin> set s"
  by (induction x arbitrary: s) (auto split: if_splits list.splits)

lemma cleanSegs_no_parent:
  "''..'' \<notin> set xs \<Longrightarrow> cleanSegs r acc xs = acc @ filter (\<lambda>s. s \<noteq> [] \<and> s \<noteq> ''.'') xs"
  by (induction xs arbitrary: acc) auto

lemma splitSep_joinSep:
  "out \<noteq> [] \<Longrightarrow> \<forall>s \<in> set out. CHR ''/'' \<notin> set s \<Longrightarrow> splitSep (joinSep out) = out"
  by (induction out rule: joinSep.induct)
     (auto simp: splitSep_no_separator splitSep_append_separator)

lemma descend_names: "\<forall>s \<in> set out. isName s \<Longrightarrow> descend d out = Some (d + length out)"
  by (induction out arbitrary: d) (auto simp: isName_def)

lemma not_isRooted_joinSep: "isName s \<Longrightarrow> \<not> isRooted (joinSep (s # ss))"
  by (cases ss; cases s) (auto simp: isRooted_def isName_def)

lemma nameElements_names: "''..'' \<notin> set (nameElements n) \<Longrightarrow> \<forall>s \<in> set (nameElements n). isName s"
  by (auto simp: nameElements_def isName_def dest: splitSep_separator_free)

lemma nameElements_parent:
  assumes "''..'' \<in> set (splitSep n)"
  shows "''..'' \<in> set (nameElements n)"
proof -
  from assms have "map lowerASCII ''..'' \<in> map lowerASCII ` set (splitSep n)"
    by (rule imageI)
  then have "''..'' \<in> set (splitSep (map lowerASCII n))"
    by (simp add: splitSep_lowerASCII lowerASCII_def isUpperASCII_def)
  then show ?thesis by (simp add: nameElements_def)
qed

lemma joinSep_append:
  "xs \<noteq> [] \<Longrightarrow> ys \<noteq> [] \<Longrightarrow> joinSep (xs @ ys) = joinSep xs @ ''/'' @ joinSep ys"
proof (induction xs rule: joinSep.induct)
  case 1
  then show ?case by simp
next
  case (2 s)
  then show ?case by (cases ys) auto
next
  case (3 s t ss)
  then show ?case by simp
qed

lemma filter_names: "\<forall>s \<in> set names. isName s \<Longrightarrow> filter (\<lambda>s. s \<noteq> [] \<and> s \<noteq> ''.'') names = names"
  by (induction names) (auto simp: isName_def)

lemma names_no_parent: "\<forall>s \<in> set names. isName s \<Longrightarrow> ''..'' \<notin> set names"
  by (auto simp: isName_def)

lemma joinSep_names_not_Nil: "names \<noteq> [] \<Longrightarrow> \<forall>s \<in> set names. isName s \<Longrightarrow> joinSep names \<noteq> []"
  by (cases names rule: joinSep.cases) (auto simp: isName_def)

lemma Clean_names:
  assumes ne: "names \<noteq> []" and names: "\<forall>s \<in> set names. isName s"
  shows "Clean (joinSep names) = joinSep names"
proof -
  obtain s ss where n: "names = s # ss" using ne by (cases names) auto
  with names have s: "isName s" by simp
  have nr: "\<not> isRooted (joinSep names)"
    unfolding n using s by (rule not_isRooted_joinSep)
  from names have free: "\<forall>s \<in> set names. CHR ''/'' \<notin> set s" by (simp add: isName_def)
  have split: "splitSep (joinSep names) = names"
    using ne free by (rule splitSep_joinSep)
  have segs: "cleanSegs False [] names = names"
    using cleanSegs_no_parent [OF names_no_parent [OF names], of False "[]"]
      filter_names [OF names] by simp
  show ?thesis
    using nr ne joinSep_names_not_Nil [OF ne names]
    by (simp add: Clean_def Let_def split segs)
qed

lemma Join_below:
  assumes ne: "names \<noteq> []" and names: "\<forall>s \<in> set names. isName s"
  shows "Join [base, joinSep names] = below base (joinSep names)"
proof (cases "base = []")
  case True
  with Clean_names [OF ne names] joinSep_names_not_Nil [OF ne names] show ?thesis
    by (simp add: Join_def below_def isRooted_def)
next
  case False
  define out where "out = cleanSegs (isRooted base) [] (splitSep base)"
  from names have free: "\<forall>s \<in> set names. CHR ''/'' \<notin> set s" by (simp add: isName_def)
  have split: "splitSep (base @ ''/'' @ joinSep names) = splitSep base @ names"
    using splitSep_joinSep [OF ne free] by (simp add: splitSep_append_separator)
  have rooted: "isRooted (base @ ''/'' @ joinSep names) = isRooted base"
    using False by (rule isRooted_append)
  have "cleanSegs (isRooted base) out names = out @ names"
    using cleanSegs_no_parent [OF names_no_parent [OF names], of "isRooted base" out]
      filter_names [OF names] by simp
  then have segs: "cleanSegs (isRooted base) [] (splitSep (base @ ''/'' @ joinSep names)) = out @ names"
    by (simp only: split cleanSegs_append out_def)
  have long: "Clean (base @ ''/'' @ joinSep names) =
      (if isRooted base then CHR ''/'' # joinSep (out @ names) else joinSep (out @ names))"
    unfolding Clean_def Let_def rooted segs using ne by simp
  have short: "Clean base = (if isRooted base then CHR ''/'' # joinSep out
                             else if out = [] then ''.'' else joinSep out)"
    unfolding Clean_def Let_def out_def [symmetric] using False by simp
  have "Clean (base @ ''/'' @ joinSep names) = below base (joinSep names)"
  proof (cases "out = []")
    case True
    then show ?thesis unfolding long by (simp add: below_def out_def [symmetric])
  next
    case out: False
    then show ?thesis
      unfolding long below_def out_def [symmetric] short
      by (simp add: joinSep_append [OF out ne])
  qed
  with False show ?thesis by (simp add: Join_def)
qed

lemma resolvePath_ok:
  assumes "resolvePath base logicalName = (fsPath, gitPath, None)"
  shows "nameElements logicalName \<noteq> []" and "''..'' \<notin> set (nameElements logicalName)"
    and "gitPath = joinSep (nameElements logicalName)" and "fsPath = Join [base, gitPath]"
  using assms by (auto simp: resolvePath_def Let_def split: if_splits)

lemma resolvePath_inside:
  assumes ok: "resolvePath base logicalName = (fsPath, gitPath, None)"
  shows "strictly_inside_root gitPath" and "fsPath = below base gitPath"
proof -
  let ?names = "nameElements logicalName"
  note r = resolvePath_ok [OF ok]
  have names: "\<forall>s \<in> set ?names. isName s" using r(2) by (rule nameElements_names)
  then have free: "\<forall>s \<in> set ?names. CHR ''/'' \<notin> set s" by (simp add: isName_def)
  obtain s ss where n: "?names = s # ss" using r(1) by (cases ?names) auto
  with names have s: "isName s" by simp
  have "splitSep gitPath = ?names"
    unfolding r(3) using r(1) free by (rule splitSep_joinSep)
  moreover have "descend 0 ?names = Some (0 + length ?names)"
    using names by (rule descend_names)
  moreover have "\<not> isRooted gitPath"
    unfolding r(3) n using s by (rule not_isRooted_joinSep)
  ultimately show "strictly_inside_root gitPath"
    using r(1) by (simp add: strictly_inside_root_def)
  show "fsPath = below base gitPath"
    unfolding r(4) r(3) using r(1) names by (rule Join_below)
qed

lemma resolvePath_parent_segment:
  assumes "''..'' \<in> set (splitSep logicalName)"
  shows "resolvePath base logicalName = ([], [], Some PathError)"
  using nameElements_parent [OF assms] by (auto simp: resolvePath_def Let_def)

text \<open>
  C6. Every logical name with a parent-directory element is rejected with \<open>PathError\<close>. For
  every name that resolves, the path relative to the repository root walks strictly below
  the root without ever leaving it, and the path in the file system is that relative path
  below the cleaned repository directory. This holds for every repository directory.
\<close>

theorem resolvePath_rejects_parent_and_stays_inside:
  "(''..'' \<in> set (splitSep logicalName) \<longrightarrow>
      resolvePath base logicalName = ([], [], Some PathError))
   \<and> (\<forall>fsPath gitPath. resolvePath base logicalName = (fsPath, gitPath, None) \<longrightarrow>
        strictly_inside_root gitPath \<and> fsPath = below base gitPath)"
  by (auto intro: resolvePath_parent_segment resolvePath_inside)

theorem resolvePath_rejects_parent_and_stays_inside_witness:
  "resolvePath ''/srv/wiki'' ''../secret'' = ([], [], Some PathError)
   \<and> resolvePath ''/srv/wiki'' ''Notes/Todo.txt''
       = (''/srv/wiki/notes/todo.txt'', ''notes/todo.txt'', None)
   \<and> strictly_inside_root ''notes/todo.txt''
   \<and> below ''/srv/wiki'' ''notes/todo.txt'' = ''/srv/wiki/notes/todo.txt''"
proof -
  have parent: "''..'' \<in> set (splitSep ''../secret'')" by simp
  have ok: "resolvePath ''/srv/wiki'' ''Notes/Todo.txt''
              = (''/srv/wiki/notes/todo.txt'', ''notes/todo.txt'', None)" by code_simp
  have a: "resolvePath ''/srv/wiki'' ''../secret'' = ([], [], Some PathError)"
    using resolvePath_rejects_parent_and_stays_inside [of "''../secret''" "''/srv/wiki''",
        THEN conjunct1, THEN mp, OF parent] .
  have b: "strictly_inside_root ''notes/todo.txt''
           \<and> ''/srv/wiki/notes/todo.txt'' = below ''/srv/wiki'' ''notes/todo.txt''"
    using resolvePath_rejects_parent_and_stays_inside [of "''Notes/Todo.txt''" "''/srv/wiki''",
        THEN conjunct2, THEN spec, THEN spec, THEN mp, OF ok] .
  from a ok b show ?thesis by simp
qed

text \<open>
  With this resolver in place, \<open>GetFile\<close> on a rejected name goes on to ask
  \<open>pathAtRevision\<close> for the empty path and returns what that gives; the \<open>PathError\<close> is
  not among the errors it can return unless \<open>pathAtRevision\<close> produces one itself.
\<close>

lemma GetFile_after_rejected_name:
  assumes "''..'' \<in> set (splitSep name)"
  shows "GetFile resolvePath pathAtRevision g revision name =
           (case pathAtRevision [] revision of (_, b, err) \<Rightarrow>
              ((case err of Some e \<Rightarrow> (None, Some e) | None \<Rightarrow> (Some b, None)),
               [RLock, Call_resolvePath (dir g) name, Call_pathAtRevision [] revision,
                RUnlock]))"
  by (simp add: GetFile_def resolvePath_parent_segment [OF assms])

subsection \<open>The commit writer\<close>

lemma stage_all: "stage ok index ps = Some index' \<Longrightarrow> index' = index @ ps"
proof (induction ps arbitrary: index)
  case Nil
  then show ?case by simp
next
  case (Cons p ps)
  then have "stage ok (index @ [p]) ps = Some index'" by (simp split: if_splits)
  from Cons.IH [OF this] show ?case by simp
qed

text \<open>
  C3. When staging or committing fails, the store after the operation is the store before
  it: same working copy, same chain, same tip. When the operation succeeds, the chain has
  grown by exactly one revision, whose parent is the old tip and whose changed paths are
  the given ones, and the working copy is as it was.
\<close>

theorem commit_all_or_nothing:
  "(\<forall>e. fst (commit stage_ok commit_ok fresh now s physicalPaths auth msg) = Inl e \<longrightarrow>
        snd (commit stage_ok commit_ok fresh now s physicalPaths auth msg) = s)
   \<and> (\<forall>r. fst (commit stage_ok commit_ok fresh now s physicalPaths auth msg) = Inr r \<longrightarrow>
        revisions (snd (commit stage_ok commit_ok fresh now s physicalPaths auth msg))
          = r # revisions s
        \<and> tip (snd (commit stage_ok commit_ok fresh now s physicalPaths auth msg))
          = Some (rev_id r)
        \<and> working (snd (commit stage_ok commit_ok fresh now s physicalPaths auth msg))
          = working s
        \<and> parent r = tip s
        \<and> changed r = physicalPaths)"
proof (cases "stage stage_ok [] physicalPaths")
  case None
  then show ?thesis by (simp add: commit_def)
next
  case (Some index)
  from stage_all [OF this] have "index = physicalPaths" by simp
  with Some show ?thesis
    by (auto simp: commit_def Let_def tip_def)
qed

theorem commit_all_or_nothing_witness:
  "commit (\<lambda>p. p \<noteq> ''locked.md'') True 4 40
       \<lparr>working = Map.empty, revisions = example_chain\<rparr> [''home.md'', ''locked.md'']
       ''ann'' ''two pages''
     = (Inl CommitError, \<lparr>working = Map.empty, revisions = example_chain\<rparr>)
   \<and> revisions (snd (commit (\<lambda>p. True) True 4 40
       \<lparr>working = Map.empty, revisions = example_chain\<rparr> [''home.md'', ''about.md'']
       ''ann'' ''two pages''))
     = \<lparr>rev_id = 4, parent = Some 3, author = ''ann'', timestamp = 40,
         message = ''two pages'', changed = [''home.md'', ''about.md'']\<rparr> # example_chain"
proof -
  let ?s = "\<lparr>working = Map.empty, revisions = example_chain\<rparr>"
  let ?r = "\<lparr>rev_id = 4, parent = Some 3, author = ''ann'', timestamp = 40,
             message = ''two pages'', changed = [''home.md'', ''about.md'']\<rparr>"
  have fails: "fst (commit (\<lambda>p. p \<noteq> ''locked.md'') True 4 40 ?s [''home.md'', ''locked.md'']
                 ''ann'' ''two pages'') = Inl CommitError"
    by (simp add: commit_def)
  have works: "fst (commit (\<lambda>p. True) True 4 40 ?s [''home.md'', ''about.md'']
                 ''ann'' ''two pages'') = Inr ?r"
    by (simp add: commit_def Let_def tip_def example_chain_def)
  have a: "snd (commit (\<lambda>p. p \<noteq> ''locked.md'') True 4 40 ?s [''home.md'', ''locked.md'']
                 ''ann'' ''two pages'') = ?s"
    using commit_all_or_nothing [of "\<lambda>p. p \<noteq> ''locked.md''" True 4 40 ?s
        "[''home.md'', ''locked.md'']" "''ann''" "''two pages''",
        THEN conjunct1, THEN spec, THEN mp, OF fails] .
  have b: "revisions (snd (commit (\<lambda>p. True) True 4 40 ?s [''home.md'', ''about.md'']
                 ''ann'' ''two pages'')) = ?r # revisions ?s"
    using commit_all_or_nothing [of "\<lambda>p. True" True 4 40 ?s
        "[''home.md'', ''about.md'']" "''ann''" "''two pages''",
        THEN conjunct2, THEN spec, THEN mp, OF works, THEN conjunct1] .
  from fails a have "commit (\<lambda>p. p \<noteq> ''locked.md'') True 4 40 ?s [''home.md'', ''locked.md'']
                 ''ann'' ''two pages'' = (Inl CommitError, ?s)"
    by (simp add: prod_eq_iff)
  with b show ?thesis by simp
qed

subsection \<open>The history walker\<close>












end
